theory Spec2Isabelle
  imports Main "HOL-Library.Multiset"
begin

section \<open>The Sudoku engine of \<^verbatim>\<open>sudoku_puzzle/Sudoku.py\<close>\<close>

text \<open>
  The Python program keeps a board as a list of nine row lists and mutates the rows in
  place (\<^verbatim>\<open>board[row][col] = num\<close>). The embedding therefore has an explicit store of
  row objects: an address is an index into the store, a board is the outer list of row
  addresses (the program never assigns to the outer list), and the grid a board shows in
  a store is read off with \<open>grid_of\<close>. Functions that only read (\<^verbatim>\<open>is_safe\<close>,
  \<^verbatim>\<open>find_empty_cell\<close>) take that grid; functions that write take and return the store.

  An index out of range raises \<^verbatim>\<open>IndexError\<close> in Python; every indexing of the source
  is a branch of the model. Coordinates are natural numbers: the program only ever
  produces indices from \<^verbatim>\<open>range\<close>, so Python's negative indexing never occurs.
\<close>

subsection \<open>Data model\<close>

datatype error = IndexError

type_synonym grid = "int list list"

type_synonym addr = nat

type_synonym store = "int list list"

type_synonym board = "addr list"

abbreviation (input) N :: nat where
  "N \<equiv> 9"

definition NUMBERS :: "int list" where
  "NUMBERS = map int [1..<N + 1]"

definition grid_of :: "store \<Rightarrow> board \<Rightarrow> grid" where
  "grid_of s b = map (\<lambda>a. s ! a) b"

text \<open>\<^verbatim>\<open>board[i][j]\<close> as an expression.\<close>

definition get_cell :: "grid \<Rightarrow> nat \<Rightarrow> nat \<Rightarrow> error + int" where
  "get_cell g i j =
     (if i < length g then
        (if j < length (g ! i) then Inr (g ! i ! j) else Inl IndexError)
      else Inl IndexError)"

text \<open>\<^verbatim>\<open>board[i][j] = v\<close>: the row object that \<^verbatim>\<open>board[i]\<close> refers to is updated in the store.\<close>

definition set_cell :: "store \<Rightarrow> board \<Rightarrow> nat \<Rightarrow> nat \<Rightarrow> int \<Rightarrow> error + store" where
  "set_cell s b i j v =
     (if i < length b then
        (if j < length (s ! (b ! i)) then Inr (s[b ! i := (s ! (b ! i))[j := v]])
         else Inl IndexError)
      else Inl IndexError)"

subsection \<open>The random source\<close>

text \<open>
  \<^verbatim>\<open>random.shuffle\<close> belongs to Python's library, not to the repository. It is taken as a
  parameter: a random source of state type \<open>'r\<close> hands out, for a list length \<open>n\<close>, a
  list of indices and its next state; shuffling a list rearranges it by those indices.
  \<open>rnd_ok\<close> is the library's contract: the indices are a permutation of \<open>0..<n\<close>.
\<close>

type_synonym 'r rnd = "'r \<Rightarrow> nat \<Rightarrow> nat list \<times> 'r"

definition rnd_ok :: "'r rnd \<Rightarrow> bool" where
  "rnd_ok rnd = (\<forall>r n. mset (fst (rnd r n)) = mset [0..<n])"

definition shuffle :: "'r rnd \<Rightarrow> 'r \<Rightarrow> 'a list \<Rightarrow> 'a list \<times> 'r" where
  "shuffle rnd r xs = (case rnd r (length xs) of (p, r') \<Rightarrow> (map (\<lambda>i. xs ! i) p, r'))"

subsection \<open>\<^verbatim>\<open>is_safe\<close>\<close>

text \<open>
  A scan \<^verbatim>\<open>for ...: if board[i][j] == num: return False\<close> over a list of coordinates, in
  order, stopping at the first hit or at the first \<^verbatim>\<open>IndexError\<close>.
\<close>

fun any_equal :: "grid \<Rightarrow> int \<Rightarrow> (nat \<times> nat) list \<Rightarrow> error + bool" where
  "any_equal g num [] = Inr False"
| "any_equal g num ((i, j) # cs) =
     (case get_cell g i j of
        Inl e \<Rightarrow> Inl e
      | Inr v \<Rightarrow> if v = num then Inr True else any_equal g num cs)"

definition is_safe :: "grid \<Rightarrow> nat \<Rightarrow> nat \<Rightarrow> int \<Rightarrow> error + bool" where
  "is_safe g row col num =
     (if \<not> row < length g then Inl IndexError
      else if num \<in> set (g ! row) then Inr False
      else
        (case any_equal g num (map (\<lambda>i. (i, col)) [0..<N]) of
           Inl e \<Rightarrow> Inl e
         | Inr True \<Rightarrow> Inr False
         | Inr False \<Rightarrow>
             (let start_row = row - row mod 3;
                  start_col = col - col mod 3
              in case any_equal g num
                        (concat (map (\<lambda>i. map (\<lambda>j. (start_row + i, start_col + j)) [0..<3]) [0..<3])) of
                   Inl e \<Rightarrow> Inl e
                 | Inr True \<Rightarrow> Inr False
                 | Inr False \<Rightarrow> Inr True)))"

subsection \<open>\<^verbatim>\<open>find_empty_cell\<close>\<close>

fun first_empty :: "grid \<Rightarrow> (nat \<times> nat) list \<Rightarrow> error + (nat \<times> nat) option" where
  "first_empty g [] = Inr None"
| "first_empty g ((i, j) # cs) =
     (case get_cell g i j of
        Inl e \<Rightarrow> Inl e
      | Inr v \<Rightarrow> if v = 0 then Inr (Some (i, j)) else first_empty g cs)"

definition all_cells :: "(nat \<times> nat) list" where
  "all_cells = concat (map (\<lambda>r. map (\<lambda>c. (r, c)) [0..<N]) [0..<N])"

definition find_empty_cell :: "grid \<Rightarrow> error + (nat \<times> nat) option" where
  "find_empty_cell g = first_empty g all_cells"

subsection \<open>\<^verbatim>\<open>fill_grid\<close>\<close>

text \<open>
  The recursion of \<^verbatim>\<open>fill_grid\<close> is not structural, and the state its loop continues
  with comes out of the recursive call, so the model carries fuel: the number of nested
  \<^verbatim>\<open>fill_grid\<close> calls still allowed. \<open>None\<close> means the fuel ran out; that a call
  returns is a theorem (\<open>fill_grid_returns\<close>). \<open>try_numbers\<close> is the \<^verbatim>\<open>for num in
  numbers_to_try\<close> loop at the cell \<open>(row, col)\<close>.
\<close>

fun fill_grid :: "nat \<Rightarrow> 'r rnd \<Rightarrow> board \<Rightarrow> store \<Rightarrow> 'r \<Rightarrow> (error + bool \<times> store \<times> 'r) option"
  and try_numbers ::
    "nat \<Rightarrow> 'r rnd \<Rightarrow> board \<Rightarrow> nat \<Rightarrow> nat \<Rightarrow> int list \<Rightarrow> store \<Rightarrow> 'r \<Rightarrow> (error + bool \<times> store \<times> 'r) option"
where
  "fill_grid 0 rnd b s r = None"
| "fill_grid (Suc n) rnd b s r =
     (case find_empty_cell (grid_of s b) of
        Inl e \<Rightarrow> Some (Inl e)
      | Inr None \<Rightarrow> Some (Inr (True, s, r))
      | Inr (Some (row, col)) \<Rightarrow>
          (case shuffle rnd r NUMBERS of
             (numbers_to_try, r') \<Rightarrow> try_numbers n rnd b row col numbers_to_try s r'))"
| "try_numbers n rnd b row col [] s r = Some (Inr (False, s, r))"
| "try_numbers n rnd b row col (num # rest) s r =
     (case is_safe (grid_of s b) row col num of
        Inl e \<Rightarrow> Some (Inl e)
      | Inr False \<Rightarrow> try_numbers n rnd b row col rest s r
      | Inr True \<Rightarrow>
          (case set_cell s b row col num of
             Inl e \<Rightarrow> Some (Inl e)
           | Inr s1 \<Rightarrow>
               (case fill_grid n rnd b s1 r of
                  None \<Rightarrow> None
                | Some (Inl e) \<Rightarrow> Some (Inl e)
                | Some (Inr (ok, s2, r2)) \<Rightarrow>
                    if ok then Some (Inr (True, s2, r2))
                    else
                      (case set_cell s2 b row col 0 of
                         Inl e \<Rightarrow> Some (Inl e)
                       | Inr s3 \<Rightarrow> try_numbers n rnd b row col rest s3 r2))))"

subsection \<open>\<^verbatim>\<open>create_puzzle\<close> and \<^verbatim>\<open>generate_sudoku\<close>\<close>

text \<open>
  \<^verbatim>\<open>copy.deepcopy\<close> of a list of lists of integers: a new outer list, and one new row
  object for every distinct row object of the original (the memo reuses the copy of a row
  that occurs twice). Integers are immutable and are shared.
\<close>

fun deepcopy_rows :: "store \<Rightarrow> (addr \<times> addr) list \<Rightarrow> addr list \<Rightarrow> store \<times> addr list" where
  "deepcopy_rows s memo [] = (s, [])"
| "deepcopy_rows s memo (a # as) =
     (case map_of memo a of
        Some a' \<Rightarrow> (case deepcopy_rows s memo as of (s', bs) \<Rightarrow> (s', a' # bs))
      | None \<Rightarrow>
          (case deepcopy_rows (s @ [s ! a]) ((a, length s) # memo) as of
             (s', bs) \<Rightarrow> (s', length s # bs)))"

definition deepcopy :: "store \<Rightarrow> board \<Rightarrow> store \<times> board" where
  "deepcopy s b = deepcopy_rows s [] b"

text \<open>
  The loop \<^verbatim>\<open>for i in range(cells_to_remove)\<close>: \<open>k\<close> iterations are left, the guard
  \<^verbatim>\<open>if not all_coords: break\<close> comes first, and \<^verbatim>\<open>all_coords.pop()\<close> takes the last
  coordinate of the list.
\<close>

fun remove_cells :: "nat \<Rightarrow> (nat \<times> nat) list \<Rightarrow> board \<Rightarrow> store \<Rightarrow> error + store" where
  "remove_cells 0 coords b s = Inr s"
| "remove_cells (Suc k) coords b s =
     (if coords = [] then Inr s
      else
        (case last coords of
           (row, col) \<Rightarrow>
             (case set_cell s b row col 0 of
                Inl e \<Rightarrow> Inl e
              | Inr s' \<Rightarrow> remove_cells k (butlast coords) b s')))"

text \<open>\<^verbatim>\<open>range(n)\<close> of a negative \<open>n\<close> is empty: the loop runs \<open>nat n\<close> times.\<close>

definition create_puzzle ::
    "'r rnd \<Rightarrow> board \<Rightarrow> int \<Rightarrow> store \<Rightarrow> 'r \<Rightarrow> error + board \<times> store \<times> 'r" where
  "create_puzzle rnd solved_board cells_to_remove s r =
     (case deepcopy s solved_board of
        (s1, puzzle_board) \<Rightarrow>
          (case shuffle rnd r all_cells of
             (all_coords, r') \<Rightarrow>
               (case remove_cells (nat cells_to_remove) all_coords puzzle_board s1 of
                  Inl e \<Rightarrow> Inl e
                | Inr s2 \<Rightarrow> Inr (puzzle_board, s2, r'))))"

text \<open>
  \<^verbatim>\<open>generate_sudoku\<close> allocates nine new rows of nine zeros, fills them, ignores what
  \<^verbatim>\<open>fill_grid\<close> returned and hands the board to \<^verbatim>\<open>create_puzzle\<close>. It returns the puzzle
  board and the solved board (with the store they live in and the random source's state).
\<close>

definition generate_sudoku ::
    "nat \<Rightarrow> 'r rnd \<Rightarrow> int \<Rightarrow> store \<Rightarrow> 'r \<Rightarrow> (error + board \<times> board \<times> store \<times> 'r) option" where
  "generate_sudoku fuel rnd cells_to_remove s r =
     (let board = [length s..<length s + N];
          s0 = s @ replicate N (replicate N 0)
      in case fill_grid fuel rnd board s0 r of
           None \<Rightarrow> None
         | Some (Inl e) \<Rightarrow> Some (Inl e)
         | Some (Inr (ok, s1, r1)) \<Rightarrow>
             (case create_puzzle rnd board cells_to_remove s1 r1 of
                Inl e \<Rightarrow> Some (Inl e)
              | Inr (puzzle, s2, r2) \<Rightarrow> Some (Inr (puzzle, board, s2, r2))))"

section \<open>Grids, units and the state of a board\<close>

definition wf_grid :: "grid \<Rightarrow> bool" where
  "wf_grid g = (length g = N \<and> (\<forall>row \<in> set g. length row = N))"

definition grid_row :: "grid \<Rightarrow> nat \<Rightarrow> int list" where
  "grid_row g r = g ! r"

definition grid_col :: "grid \<Rightarrow> nat \<Rightarrow> int list" where
  "grid_col g c = map (\<lambda>i. g ! i ! c) [0..<N]"

definition box_cells :: "nat \<Rightarrow> nat \<Rightarrow> (nat \<times> nat) list" where
  "box_cells r c = concat (map (\<lambda>i. map (\<lambda>j. (r - r mod 3 + i, c - c mod 3 + j)) [0..<3]) [0..<3])"

definition grid_box :: "grid \<Rightarrow> nat \<Rightarrow> nat \<Rightarrow> int list" where
  "grid_box g r c = map (\<lambda>(i, j). g ! i ! j) (box_cells r c)"

definition heap_ok :: "store \<Rightarrow> board \<Rightarrow> bool" where
  "heap_ok s b = (distinct b \<and> (\<forall>a \<in> set b. a < length s))"

definition put :: "grid \<Rightarrow> nat \<Rightarrow> nat \<Rightarrow> int \<Rightarrow> grid" where
  "put g i j v = g[i := (g ! i)[j := v]]"

definition count_empty :: "grid \<Rightarrow> nat" where
  "count_empty g = count_list (concat g) 0"

text \<open>
  A board in a store is in order when its nine rows are nine different row objects of the
  store, each of length nine.
\<close>

definition state_ok :: "store \<Rightarrow> board \<Rightarrow> bool" where
  "state_ok s b = (heap_ok s b \<and> wf_grid (grid_of s b))"

subsection \<open>Concrete inputs\<close>

text \<open>
  A random source for running the model: its state is a counter, and the permutation it
  hands out is the rotation of \<open>0..<n\<close> by that counter.
\<close>

definition rotating_rnd :: "nat rnd" where
  "rotating_rnd r n = (rotate r [0..<n], Suc r)"

text \<open>A board whose nine rows are the first nine objects of the store.\<close>

definition board0 :: board where
  "board0 = [0..<N]"

definition solved_grid :: grid where
  "solved_grid =
     [[5, 3, 4, 6, 7, 8, 9, 1, 2],
      [6, 7, 2, 1, 9, 5, 3, 4, 8],
      [1, 9, 8, 3, 4, 2, 5, 6, 7],
      [8, 5, 9, 7, 6, 1, 4, 2, 3],
      [4, 2, 6, 8, 5, 3, 7, 9, 1],
      [7, 1, 3, 9, 2, 4, 8, 5, 6],
      [9, 6, 1, 5, 3, 7, 2, 8, 4],
      [2, 8, 7, 4, 1, 9, 6, 3, 5],
      [3, 4, 5, 2, 8, 6, 1, 7, 9]]"


text \<open>\<open>solved_grid\<close> with three cells emptied.\<close>

definition holes_grid :: grid where
  "holes_grid = put (put (put solved_grid 0 0 0) 0 5 0) 4 4 0"

subsection \<open>Rows, columns and boxes\<close>

text \<open>
  The cells of row \<open>r\<close>, of column \<open>c\<close>, and (above) of the box whose origin is
  \<open>(r - r mod 3, c - c mod 3)\<close>; the twenty-seven units of a grid are its nine rows, its
  nine columns and its nine boxes.
\<close>

definition row_cells :: "nat \<Rightarrow> (nat \<times> nat) list" where
  "row_cells r = map (\<lambda>j. (r, j)) [0..<N]"

definition col_cells :: "nat \<Rightarrow> (nat \<times> nat) list" where
  "col_cells c = map (\<lambda>i. (i, c)) [0..<N]"

definition unit_cells :: "(nat \<times> nat) list list" where
  "unit_cells =
     map row_cells [0..<N] @ map col_cells [0..<N] @
     concat (map (\<lambda>i. map (\<lambda>j. box_cells (3 * i) (3 * j)) [0..<3]) [0..<3])"

definition cell_at :: "grid \<Rightarrow> nat \<times> nat \<Rightarrow> int" where
  "cell_at g p = g ! fst p ! snd p"

definition cells_of :: "grid \<Rightarrow> (nat \<times> nat) list \<Rightarrow> int list" where
  "cells_of g cs = map (cell_at g) cs"

definition units :: "grid \<Rightarrow> int list list" where
  "units g = map (cells_of g) unit_cells"

text \<open>
  The Sudoku invariant of a complete grid: nine rows of nine cells, and every row, column
  and box contains each of 1 to 9 exactly once.
\<close>

definition valid_grid :: "grid \<Rightarrow> bool" where
  "valid_grid g = (wf_grid g \<and> (\<forall>u \<in> set (units g). \<forall>v \<in> set NUMBERS. count_list u v = 1))"


text \<open>What the specification says \<^verbatim>\<open>is_safe\<close> looks for.\<close>

definition in_row :: "grid \<Rightarrow> nat \<Rightarrow> int \<Rightarrow> bool" where
  "in_row g r v = (\<exists>j \<in> {0..<N}. g ! r ! j = v)"

definition in_col :: "grid \<Rightarrow> nat \<Rightarrow> int \<Rightarrow> bool" where
  "in_col g c v = (\<exists>i \<in> {0..<N}. g ! i ! c = v)"

definition in_box :: "grid \<Rightarrow> nat \<Rightarrow> nat \<Rightarrow> int \<Rightarrow> bool" where
  "in_box g r c v =
     (\<exists>i \<in> {0..<N}. \<exists>j \<in> {0..<N}. i div 3 = r div 3 \<and> j div 3 = c div 3 \<and> g ! i ! j = v)"

text \<open>Two cells see each other when they share a row, a column or a box.\<close>

definition related :: "nat \<times> nat \<Rightarrow> nat \<times> nat \<Rightarrow> bool" where
  "related p q =
     (fst q = fst p \<or> snd q = snd p \<or> (fst q div 3 = fst p div 3 \<and> snd q div 3 = snd p div 3))"

definition no_clash :: "grid \<Rightarrow> bool" where
  "no_clash g =
     (\<forall>p \<in> set all_cells. \<forall>q \<in> set all_cells.
        p \<noteq> q \<and> related p q \<and> cell_at g p \<noteq> 0 \<longrightarrow> cell_at g p \<noteq> cell_at g q)"

text \<open>
  The invariant of the search, cell by cell: the grid is nine by nine, every cell holds 0
  to 9, and no filled cell has its value again in a cell it sees. A grid extends to a
  solution when every filled cell agrees with the solution.
\<close>

definition partial_ok :: "grid \<Rightarrow> bool" where
  "partial_ok g =
     (wf_grid g \<and> no_clash g \<and> (\<forall>p \<in> set all_cells. 0 \<le> cell_at g p \<and> cell_at g p \<le> 9))"

definition extends :: "grid \<Rightarrow> grid \<Rightarrow> bool" where
  "extends g sol = (\<forall>p \<in> set all_cells. cell_at g p \<noteq> 0 \<longrightarrow> cell_at sol p = cell_at g p)"



section \<open>Basic facts\<close>

lemma NUMBERS_eq: "NUMBERS = [1, 2, 3, 4, 5, 6, 7, 8, 9]"
  by (simp add: NUMBERS_def upt_rec)

lemma set_NUMBERS: "set NUMBERS = {1..9}"
  unfolding NUMBERS_eq by auto

lemma wf_grid_nth: "wf_grid g \<Longrightarrow> i < N \<Longrightarrow> length (g ! i) = N"
  by (simp add: wf_grid_def)

lemma get_cell_wf: "wf_grid g \<Longrightarrow> i < N \<Longrightarrow> j < N \<Longrightarrow> get_cell g i j = Inr (g ! i ! j)"
  by (simp add: get_cell_def wf_grid_def)

lemma any_equal_wf:
  "wf_grid g \<Longrightarrow> \<forall>(i, j) \<in> set cs. i < N \<and> j < N \<Longrightarrow>
   any_equal g num cs = Inr (num \<in> set (map (\<lambda>(i, j). g ! i ! j) cs))"
  by (induction cs) (auto simp: get_cell_wf)

lemma box_cells_in_range:
  "r < N \<Longrightarrow> c < N \<Longrightarrow> (i, j) \<in> set (box_cells r c) \<Longrightarrow> i < N \<and> j < N"
  unfolding box_cells_def by (auto simp: upt_rec) presburger+

lemma is_safe_wf:
  assumes "wf_grid g" "r < N" "c < N"
  shows "is_safe g r c v = Inr (v \<notin> set (grid_row g r) \<and> v \<notin> set (grid_col g c) \<and> v \<notin> set (grid_box g r c))"
proof -
  have colscan: "any_equal g v (map (\<lambda>i. (i, c)) [0..<N]) = Inr (v \<in> set (grid_col g c))"
    using assms by (subst any_equal_wf) (auto simp: grid_col_def)
  have boxscan: "any_equal g v (box_cells r c) = Inr (v \<in> set (grid_box g r c))"
    using assms box_cells_in_range[OF assms(2,3)] by (subst any_equal_wf) (auto simp: grid_box_def)
  have "r < length g"
    using assms(1,2) by (simp add: wf_grid_def)
  then show ?thesis
    unfolding is_safe_def Let_def box_cells_def[symmetric] colscan boxscan
    by (auto simp: grid_row_def split: bool.splits)
qed

subsection \<open>Shuffling\<close>

lemma shuffle_mset:
  assumes "rnd_ok rnd" "shuffle rnd r xs = (ys, r')"
  shows "mset ys = mset xs"
proof -
  obtain p where p: "rnd r (length xs) = (p, r')" and ys: "ys = map (\<lambda>i. xs ! i) p"
    using assms(2) by (auto simp: shuffle_def split: prod.splits)
  have "mset p = mset [0..<length xs]"
    using assms(1) p by (metis rnd_ok_def fst_conv)
  then have "mset (map (\<lambda>i. xs ! i) p) = mset (map (\<lambda>i. xs ! i) [0..<length xs])"
    by (metis mset_map)
  then show ?thesis
    by (simp add: ys map_nth)
qed

lemma shuffle_set: "rnd_ok rnd \<Longrightarrow> shuffle rnd r xs = (ys, r') \<Longrightarrow> set ys = set xs"
  by (metis shuffle_mset set_mset_mset)

lemma shuffle_length: "rnd_ok rnd \<Longrightarrow> shuffle rnd r xs = (ys, r') \<Longrightarrow> length ys = length xs"
  by (metis shuffle_mset size_mset)

lemma shuffle_distinct: "rnd_ok rnd \<Longrightarrow> shuffle rnd r xs = (ys, r') \<Longrightarrow> distinct ys = distinct xs"
  by (metis shuffle_mset mset_eq_imp_distinct_iff)

lemma set_all_cells: "set all_cells = {(i, j). i < N \<and> j < N}"
  by (auto simp: all_cells_def)

lemma distinct_all_cells: "distinct all_cells"
  unfolding all_cells_def
  by (rule distinct_concat) (auto simp: distinct_map inj_on_def)

lemma length_all_cells: "length all_cells = 81"
  by (simp add: all_cells_def length_concat comp_def sum_list_triv)

subsection \<open>Finding the empty cell\<close>

lemma first_empty_Some:
  "first_empty g cs = Inr (Some (i, j)) \<Longrightarrow> get_cell g i j = Inr 0 \<and> (i, j) \<in> set cs"
  by (induction g cs rule: first_empty.induct) (auto split: sum.splits if_splits)

lemma first_empty_wf:
  "wf_grid g \<Longrightarrow> \<forall>(i, j) \<in> set cs. i < N \<and> j < N \<Longrightarrow>
   first_empty g cs = Inr (find (\<lambda>(i, j). g ! i ! j = 0) cs)"
  by (induction cs) (auto simp: get_cell_wf)

lemma find_empty_cell_wf:
  "wf_grid g \<Longrightarrow> find_empty_cell g = Inr (find (\<lambda>(i, j). g ! i ! j = 0) all_cells)"
  unfolding find_empty_cell_def by (rule first_empty_wf) (auto simp: set_all_cells)


lemma find_empty_cell_Some:
  "find_empty_cell g = Inr (Some (i, j)) \<Longrightarrow> get_cell g i j = Inr 0 \<and> i < N \<and> j < N"
  unfolding find_empty_cell_def using first_empty_Some[of g all_cells i j]
  by (auto simp: set_all_cells)

lemma get_cell_Inr: "get_cell g i j = Inr v \<longleftrightarrow> i < length g \<and> j < length (g ! i) \<and> g ! i ! j = v"
  by (auto simp: get_cell_def)

subsection \<open>Writing a cell\<close>

lemma set_cell_Inr:
  "set_cell s b i j v = Inr s' \<longleftrightarrow>
   i < length b \<and> j < length (s ! (b ! i)) \<and> s' = s[b ! i := (s ! (b ! i))[j := v]]"
  by (auto simp: set_cell_def)

lemma length_set_cell: "set_cell s b i j v = Inr s' \<Longrightarrow> length s' = length s"
  by (auto simp: set_cell_Inr)

lemma heap_ok_set_cell: "heap_ok s b \<Longrightarrow> set_cell s b i j v = Inr s' \<Longrightarrow> heap_ok s' b"
  by (auto simp: set_cell_Inr heap_ok_def)

lemma grid_of_set_cell:
  assumes "heap_ok s b" "set_cell s b i j v = Inr s'"
  shows "grid_of s' b = put (grid_of s b) i j v"
proof -
  have i: "i < length b" and s': "s' = s[b ! i := (s ! (b ! i))[j := v]]"
    using assms(2) by (auto simp: set_cell_Inr)
  have "grid_of s' b ! k = put (grid_of s b) i j v ! k" if "k < length b" for k
    using that i assms(1)
    by (auto simp: grid_of_def put_def s' heap_ok_def nth_list_update nth_eq_iff_index_eq)
  then show ?thesis
    by (intro nth_equalityI) (auto simp: grid_of_def put_def)
qed

lemma wf_grid_put:
  assumes "wf_grid g"
  shows "wf_grid (put g i j v)"
proof (cases "i < length g")
  case True
  then have "length ((g ! i)[j := v]) = N"
    using assms by (simp add: wf_grid_def)
  then show ?thesis
    using assms set_update_subset_insert[of g i "(g ! i)[j := v]"]
    by (auto simp: wf_grid_def put_def)
next
  case False
  then show ?thesis
    using assms by (simp add: put_def list_update_beyond)
qed

lemma set_cell_ok:
  "heap_ok s b \<Longrightarrow> wf_grid (grid_of s b) \<Longrightarrow> i < N \<Longrightarrow> j < N \<Longrightarrow> \<exists>s'. set_cell s b i j v = Inr s'"
  by (auto simp: set_cell_Inr wf_grid_def grid_of_def)

lemma put_nth:
  "i < length g \<Longrightarrow> j < length (g ! i) \<Longrightarrow>
   put g i j v ! i' ! j' = (if i' = i \<and> j' = j then v else g ! i' ! j')"
  by (auto simp: put_def nth_list_update)

subsection \<open>Counting empty cells\<close>

lemma count_list_update:
  "j < length xs \<Longrightarrow>
   count_list (xs[j := v]) x + (if xs ! j = x then 1 else 0) =
   count_list xs x + (if v = x then 1 else 0)"
proof (induction xs arbitrary: j)
  case Nil
  then show ?case by simp
next
  case (Cons a xs)
  show ?case
  proof (cases j)
    case 0
    then show ?thesis by simp
  next
    case (Suc k)
    then have "k < length xs"
      using Cons.prems by simp
    from Cons.IH[OF this] show ?thesis
      using Suc by (simp split: if_splits)
  qed
qed

lemma count_empty_put:
  assumes "i < length g" "j < length (g ! i)"
  shows "count_empty (put g i j v) + (if g ! i ! j = 0 then 1 else 0) =
         count_empty g + (if v = 0 then 1 else 0)"
proof -
  have g: "g = take i g @ (g ! i) # drop (Suc i) g"
    using assms(1) by (simp add: id_take_nth_drop)
  have p: "put g i j v = take i g @ (g ! i)[j := v] # drop (Suc i) g"
    using assms(1) by (simp add: put_def upd_conv_take_nth_drop)
  have "count_empty g = count_list (concat (take i g)) 0 + count_list (g ! i) 0
          + count_list (concat (drop (Suc i) g)) 0"
    unfolding count_empty_def by (subst g) simp
  moreover have "count_empty (put g i j v) = count_list (concat (take i g)) 0
          + count_list ((g ! i)[j := v]) 0 + count_list (concat (drop (Suc i) g)) 0"
    unfolding count_empty_def p by simp
  ultimately show ?thesis
    using count_list_update[OF assms(2), of v 0] by (simp split: if_splits)
qed

subsection \<open>The shape of the recursion\<close>

lemma fill_grid_Inr_cases:
  assumes "fill_grid n rnd b s r = Some (Inr res)"
  obtains (full) m where "n = Suc m" "find_empty_cell (grid_of s b) = Inr None" "res = (True, s, r)"
  | (cell) m row col nums r1 where "n = Suc m"
      "find_empty_cell (grid_of s b) = Inr (Some (row, col))"
      "shuffle rnd r NUMBERS = (nums, r1)"
      "try_numbers m rnd b row col nums s r1 = Some (Inr res)"
  using assms by (cases n) (auto split: sum.splits option.splits prod.splits)

lemma try_numbers_Cons_cases:
  assumes "try_numbers n rnd b row col (num # rest) s r = Some (Inr res)"
  obtains (unsafe) "is_safe (grid_of s b) row col num = Inr False"
      "try_numbers n rnd b row col rest s r = Some (Inr res)"
  | (found) s1 s2 r2 where "is_safe (grid_of s b) row col num = Inr True"
      "set_cell s b row col num = Inr s1"
      "fill_grid n rnd b s1 r = Some (Inr (True, s2, r2))"
      "res = (True, s2, r2)"
  | (backtrack) s1 s2 r2 s3 where "is_safe (grid_of s b) row col num = Inr True"
      "set_cell s b row col num = Inr s1"
      "fill_grid n rnd b s1 r = Some (Inr (False, s2, r2))"
      "set_cell s2 b row col 0 = Inr s3"
      "try_numbers n rnd b row col rest s3 r2 = Some (Inr res)"
  using assms
  by (auto split: sum.splits option.splits prod.splits bool.splits if_splits)

lemma get_cell_grid_of:
  "get_cell (grid_of s b) i j = Inr v \<longleftrightarrow>
   i < length b \<and> j < length (s ! (b ! i)) \<and> s ! (b ! i) ! j = v"
  by (auto simp: get_cell_Inr grid_of_def)

lemma set_cell_undo:
  assumes "set_cell s b i j v = Inr s1" "set_cell s1 b i j 0 = Inr s3" "s ! (b ! i) ! j = 0"
  shows "s3 = s"
proof (cases "b ! i < length s")
  case True
  have "(s ! (b ! i))[j := 0] = s ! (b ! i)"
    using assms(3) by (metis list_update_id)
  then show ?thesis
    using True assms by (auto simp: set_cell_Inr)
next
  case False
  then show ?thesis
    using assms by (auto simp: set_cell_Inr list_update_beyond)
qed

subsection \<open>A failed call leaves the store as it was\<close>

lemma fill_grid_restores:
  shows "fill_grid n rnd b s r = Some (Inr (False, s', r')) \<Longrightarrow> s' = s"
    and "get_cell (grid_of s b) row col = Inr 0 \<Longrightarrow>
         try_numbers n rnd b row col nums s r = Some (Inr (False, s', r')) \<Longrightarrow> s' = s"
proof (induction n rnd b s r and n rnd b row col nums s r arbitrary: s' r' and s' r'
    rule: fill_grid_try_numbers.induct)
  case (1 rnd b s r)
  then show ?case by simp
next
  case (2 n rnd b s r)
  from "2.prems" show ?case
  proof (cases rule: fill_grid_Inr_cases)
    case (full m)
    then show ?thesis by simp
  next
    case (cell m row col nums r1)
    then have "get_cell (grid_of s b) row col = Inr 0"
      using find_empty_cell_Some by blast
    with "2.IH"[OF cell(2) refl refl cell(3)[symmetric]] cell show ?thesis
      by simp
  qed
next
  case (3 n rnd b row col s r)
  then show ?case by simp
next
  case (4 n rnd b row col num rest s r)
  from "4.prems"(2) show ?case
  proof (cases rule: try_numbers_Cons_cases)
    case unsafe
    with "4.IH"(3) "4.prems"(1) show ?thesis by blast
  next
    case (found s1 s2 r2)
    then show ?thesis by simp
  next
    case (backtrack s1 s2 r2 s3)
    have "s2 = s1"
      using "4.IH"(1)[OF backtrack(1) refl backtrack(2) backtrack(3)] .
    then have "s3 = s"
      using set_cell_undo[OF backtrack(2)] backtrack(4) "4.prems"(1)
      by (simp add: get_cell_grid_of)
    with "4.IH"(2)[OF backtrack(1) refl backtrack(2) backtrack(3) refl refl refl _ backtrack(4)]
      "4.prems"(1) backtrack(5)
    show ?thesis by simp
  qed
qed

subsection \<open>What a call leaves unchanged\<close>

lemma set_cell_shape: "set_cell s b i j v = Inr s' \<Longrightarrow> map length s' = map length s"
  by (cases "b ! i < length s")
     (auto simp: set_cell_Inr map_update list_update_beyond intro!: nth_equalityI simp: nth_list_update)

lemma fill_grid_shape:
  shows "fill_grid n rnd b s r = Some (Inr (ok, s', r')) \<Longrightarrow> map length s' = map length s"
    and "try_numbers n rnd b row col nums s r = Some (Inr (ok, s', r')) \<Longrightarrow>
         map length s' = map length s"
proof (induction n rnd b s r and n rnd b row col nums s r arbitrary: ok s' r' and ok s' r'
    rule: fill_grid_try_numbers.induct)
  case (1 rnd b s r)
  then show ?case by simp
next
  case (2 n rnd b s r)
  from "2.prems" show ?case
  proof (cases rule: fill_grid_Inr_cases)
    case (full m)
    then show ?thesis by simp
  next
    case (cell m row col nums r1)
    with "2.IH"[OF cell(2) refl refl cell(3)[symmetric]] show ?thesis
      by simp
  qed
next
  case (3 n rnd b row col s r)
  then show ?case by simp
next
  case (4 n rnd b row col num rest s r)
  from "4.prems" show ?case
  proof (cases rule: try_numbers_Cons_cases)
    case unsafe
    with "4.IH"(3) show ?thesis by blast
  next
    case (found s1 s2 r2)
    have "map length s2 = map length s1"
      using "4.IH"(1)[OF found(1) refl found(2) found(3)] .
    then show ?thesis
      using set_cell_shape[OF found(2)] found(4) by simp
  next
    case (backtrack s1 s2 r2 s3)
    have "map length s2 = map length s1"
      using "4.IH"(1)[OF backtrack(1) refl backtrack(2) backtrack(3)] .
    moreover have "map length s' = map length s3"
      using "4.IH"(2)[OF backtrack(1) refl backtrack(2) backtrack(3) refl refl refl _ backtrack(4)]
        backtrack(5) by simp
    ultimately show ?thesis
      using set_cell_shape[OF backtrack(2)] set_cell_shape[OF backtrack(4)] by simp
  qed
qed

lemma wf_grid_grid_of:
  "wf_grid (grid_of s b) \<longleftrightarrow> length b = N \<and> (\<forall>a \<in> set b. length (s ! a) = N)"
  by (auto simp: wf_grid_def grid_of_def)

lemma state_ok_shape:
  assumes "state_ok s b" "map length s' = map length s"
  shows "state_ok s' b"
proof -
  have len: "length s' = length s"
    using assms(2) by (metis length_map)
  have "length (s' ! a) = length (s ! a)" if "a < length s" for a
    using that len assms(2) by (metis nth_map)
  then show ?thesis
    using assms(1) len by (auto simp: state_ok_def heap_ok_def wf_grid_grid_of)
qed

lemma state_ok_set_cell:
  assumes "state_ok s b" "set_cell s b i j v = Inr s'"
  shows "state_ok s' b"
  using state_ok_shape[OF assms(1) set_cell_shape[OF assms(2)]] .

lemma state_ok_fill_grid:
  assumes "state_ok s b" "fill_grid n rnd b s r = Some (Inr (ok, s', r'))"
  shows "state_ok s' b"
  using state_ok_shape[OF assms(1) fill_grid_shape(1)[OF assms(2)]] .

lemma state_ok_set_cell_ok:
  "state_ok s b \<Longrightarrow> i < N \<Longrightarrow> j < N \<Longrightarrow> \<exists>s'. set_cell s b i j v = Inr s'"
  by (simp add: state_ok_def set_cell_ok)

lemma state_ok_grid:
  "state_ok s b \<Longrightarrow> set_cell s b i j v = Inr s' \<Longrightarrow> grid_of s' b = put (grid_of s b) i j v"
  by (simp add: state_ok_def grid_of_set_cell)

subsection \<open>Filled cells are kept\<close>

lemma set_cell_other:
  assumes "set_cell s b i j v = Inr s'" "s ! a ! k \<noteq> s ! (b ! i) ! j"
  shows "s' ! a ! k = s ! a ! k"
proof (cases "a = b ! i")
  case True
  show ?thesis
  proof (cases "a < length s")
    case inside: True
    have "k \<noteq> j"
      using assms(2) True by auto
    then show ?thesis
      using assms(1) True inside by (auto simp: set_cell_Inr)
  next
    case False
    then show ?thesis
      using assms(1) True by (auto simp: set_cell_Inr list_update_beyond)
  qed
next
  case False
  then show ?thesis
    using assms(1) by (auto simp: set_cell_Inr)
qed

lemma fill_grid_keeps:
  shows "fill_grid n rnd b s r = Some (Inr (ok, s', r')) \<Longrightarrow>
         s ! a ! k \<noteq> 0 \<Longrightarrow> s' ! a ! k = s ! a ! k"
    and "get_cell (grid_of s b) row col = Inr 0 \<Longrightarrow>
         try_numbers n rnd b row col nums s r = Some (Inr (ok, s', r')) \<Longrightarrow>
         s ! a ! k \<noteq> 0 \<Longrightarrow> s' ! a ! k = s ! a ! k"
proof (induction n rnd b s r and n rnd b row col nums s r arbitrary: ok s' r' and ok s' r'
    rule: fill_grid_try_numbers.induct)
  case (1 rnd b s r)
  then show ?case by simp
next
  case (2 n rnd b s r)
  from "2.prems"(1) show ?case
  proof (cases rule: fill_grid_Inr_cases)
    case (full m)
    then show ?thesis by simp
  next
    case (cell m row col nums r1)
    then have "get_cell (grid_of s b) row col = Inr 0"
      using find_empty_cell_Some by blast
    with "2.IH"[OF cell(2) refl refl cell(3)[symmetric]] cell "2.prems" show ?thesis
      by simp
  qed
next
  case (3 n rnd b row col s r)
  then show ?case by simp
next
  case (4 n rnd b row col num rest s r)
  have zero: "s ! (b ! row) ! col = 0"
    using "4.prems"(1) by (simp add: get_cell_grid_of)
  from "4.prems"(2) show ?case
  proof (cases rule: try_numbers_Cons_cases)
    case unsafe
    with "4.IH"(3) "4.prems" show ?thesis by blast
  next
    case (found s1 s2 r2)
    have s1: "s1 ! a ! k = s ! a ! k"
      using set_cell_other[OF found(2)] "4.prems"(3) zero by simp
    then have "s2 ! a ! k = s1 ! a ! k"
      using "4.IH"(1)[OF found(1) refl found(2) found(3)] "4.prems"(3) by simp
    then show ?thesis
      using s1 found(4) by simp
  next
    case (backtrack s1 s2 r2 s3)
    have "s2 = s1"
      using fill_grid_restores(1)[OF backtrack(3)] .
    then have "s3 = s"
      using set_cell_undo[OF backtrack(2)] backtrack(4) zero by simp
    with "4.IH"(2)[OF backtrack(1) refl backtrack(2) backtrack(3) refl refl refl _ backtrack(4)]
      "4.prems" backtrack(5)
    show ?thesis by simp
  qed
qed

subsection \<open>Enough fuel: the call returns\<close>

lemma count_empty_zero_iff:
  assumes "wf_grid g"
  shows "count_empty g = 0 \<longleftrightarrow> (\<forall>i<N. \<forall>j<N. g ! i ! j \<noteq> 0)"
proof -
  have "count_empty g = 0 \<longleftrightarrow> (\<forall>row \<in> set g. 0 \<notin> set row)"
    by (auto simp: count_empty_def count_list_0_iff)
  also have "\<dots> \<longleftrightarrow> (\<forall>i<N. \<forall>j<N. g ! i ! j \<noteq> 0)"
    using assms unfolding wf_grid_def by (auto simp: in_set_conv_nth Ball_def)
  finally show ?thesis .
qed

lemma safe_num_nonzero:
  assumes "wf_grid g" "row < N" "col < N" "g ! row ! col = 0" "is_safe g row col num = Inr True"
  shows "num \<noteq> 0"
proof
  assume "num = 0"
  moreover have "0 \<in> set (g ! row)"
    using assms(1-4) by (metis nth_mem wf_grid_nth)
  ultimately show False
    using assms by (simp add: is_safe_wf grid_row_def)
qed

lemma count_empty_place:
  assumes "state_ok s b" "get_cell (grid_of s b) row col = Inr 0" "row < N" "col < N"
    "is_safe (grid_of s b) row col num = Inr True" "set_cell s b row col num = Inr s1"
  shows "Suc (count_empty (grid_of s1 b)) = count_empty (grid_of s b)"
proof -
  let ?g = "grid_of s b"
  have wf: "wf_grid ?g"
    using assms(1) by (simp add: state_ok_def)
  have cell: "row < length ?g" "col < length (?g ! row)" "?g ! row ! col = 0"
    using assms(2) by (simp_all add: get_cell_Inr)
  have "num \<noteq> 0"
    using safe_num_nonzero[OF wf assms(3,4) cell(3) assms(5)] .
  then show ?thesis
    using count_empty_put[OF cell(1,2), of num] cell(3) state_ok_grid[OF assms(1,6)] by simp
qed

lemma fill_grid_returns:
  shows "state_ok s b \<Longrightarrow> count_empty (grid_of s b) < n \<Longrightarrow>
         \<exists>ok s' r'. fill_grid n rnd b s r = Some (Inr (ok, s', r'))"
    and "state_ok s b \<Longrightarrow> get_cell (grid_of s b) row col = Inr 0 \<Longrightarrow> row < N \<Longrightarrow> col < N \<Longrightarrow>
         count_empty (grid_of s b) \<le> n \<Longrightarrow>
         \<exists>ok s' r'. try_numbers n rnd b row col nums s r = Some (Inr (ok, s', r'))"
proof (induction n rnd b s r and n rnd b row col nums s r rule: fill_grid_try_numbers.induct)
  case (1 rnd b s r)
  then show ?case by simp
next
  case (2 n rnd b s r)
  have wf: "wf_grid (grid_of s b)"
    using "2.prems"(1) by (simp add: state_ok_def)
  show ?case
  proof (cases "find (\<lambda>(i, j). grid_of s b ! i ! j = 0) all_cells")
    case None
    then show ?thesis
      by (auto simp: find_empty_cell_wf[OF wf])
  next
    case (Some cell)
    obtain row col where cell: "cell = (row, col)"
      by (cases cell)
    obtain nums r1 where sh: "shuffle rnd r NUMBERS = (nums, r1)"
      by (cases "shuffle rnd r NUMBERS")
    have fe: "find_empty_cell (grid_of s b) = Inr (Some (row, col))"
      using Some cell by (simp add: find_empty_cell_wf[OF wf])
    then have "get_cell (grid_of s b) row col = Inr 0" "row < N" "col < N"
      using find_empty_cell_Some by blast+
    then have "\<exists>ok s' r'. try_numbers n rnd b row col nums s r1 = Some (Inr (ok, s', r'))"
      using "2.IH"[OF fe refl refl sh[symmetric]] "2.prems" by simp
    then show ?thesis
      using fe sh by simp
  qed
next
  case (3 n rnd b row col s r)
  then show ?case by auto
next
  case (4 n rnd b row col num rest s r)
  have wf: "wf_grid (grid_of s b)"
    using "4.prems"(1) by (simp add: state_ok_def)
  obtain safe where safe: "is_safe (grid_of s b) row col num = Inr safe"
    using is_safe_wf[OF wf "4.prems"(3,4)] by blast
  show ?case
  proof (cases safe)
    case False
    with "4.IH"(3)[OF safe] "4.prems" safe show ?thesis
      by simp
  next
    case True
    then have st: "safe = True"
      by simp
    obtain s1 where s1: "set_cell s b row col num = Inr s1"
      using state_ok_set_cell_ok[OF "4.prems"(1,3,4)] by blast
    have ok1: "state_ok s1 b"
      using state_ok_set_cell[OF "4.prems"(1) s1] .
    have "Suc (count_empty (grid_of s1 b)) = count_empty (grid_of s b)"
      using count_empty_place[OF "4.prems"(1-4) _ s1] safe True by simp
    then have "count_empty (grid_of s1 b) < n"
      using "4.prems"(5) by simp
    then obtain ok s2 r2 where rec: "fill_grid n rnd b s1 r = Some (Inr (ok, s2, r2))"
      using "4.IH"(1)[OF safe st s1 ok1] by blast
    show ?thesis
    proof (cases ok)
      case True
      then show ?thesis
        using safe st s1 rec by auto
    next
      case False
      then have rec': "fill_grid n rnd b s1 r = Some (Inr (False, s2, r2))"
        using rec by simp
      have "s2 = s1"
        using fill_grid_restores(1)[OF rec'] .
      obtain s3 where s3: "set_cell s2 b row col 0 = Inr s3"
        using state_ok_set_cell_ok[OF ok1 "4.prems"(3,4)] \<open>s2 = s1\<close> by blast
      have "s3 = s"
        using set_cell_undo[OF s1] s3 \<open>s2 = s1\<close> "4.prems"(2) by (simp add: get_cell_grid_of)
      then have "\<exists>ok s' r'. try_numbers n rnd b row col rest s3 r2 = Some (Inr (ok, s', r'))"
        using "4.IH"(2)[OF safe st s1 rec refl refl refl False s3] "4.prems" by simp
      then show ?thesis
        using safe st s1 rec False s3 by auto
    qed
  qed
qed

subsection \<open>A successful call leaves no empty cell\<close>


subsection \<open>The cells of a box\<close>

lemma box_origin_eq: fixes r :: nat shows "r - r mod 3 = 3 * (r div 3)"
  by (simp add: minus_mod_eq_mult_div)

lemma div3_eq_iff: fixes i k :: nat shows "3 * k \<le> i \<and> i < 3 * k + 3 \<longleftrightarrow> i div 3 = k"
  by arith

lemma box_origin:
  fixes r i :: nat
  assumes "r < N"
  shows "r - r mod 3 \<le> i \<and> i < r - r mod 3 + 3 \<longleftrightarrow> i < N \<and> i div 3 = r div 3"
proof -
  have "i div 3 = r div 3 \<Longrightarrow> i < N"
    using assms by arith
  then show ?thesis
    unfolding box_origin_eq div3_eq_iff by blast
qed

lemma offset_range: fixes i x :: nat shows "(\<exists>a<3. i = x + a) \<longleftrightarrow> x \<le> i \<and> i < x + 3"
  by (auto intro: exI[of _ "i - x"])

lemma block_set:
  fixes x y :: nat
  shows "(i, j) \<in> set (concat (map (\<lambda>a. map (\<lambda>b. (x + a, y + b)) [0..<3]) [0..<3])) \<longleftrightarrow>
         (x \<le> i \<and> i < x + 3) \<and> (y \<le> j \<and> j < y + 3)"
  unfolding offset_range[symmetric] by (auto simp: image_iff Bex_def)

lemma block_distinct:
  fixes x y :: nat
  shows "distinct (concat (map (\<lambda>a. map (\<lambda>b. (x + a, y + b)) [0..<3]) [0..<3]))"
  by (simp add: upt_rec)

lemma set_box_cells:
  assumes "r < N" "c < N"
  shows "set (box_cells r c) = {(i, j). i < N \<and> j < N \<and> i div 3 = r div 3 \<and> j div 3 = c div 3}"
proof -
  have "(i, j) \<in> set (box_cells r c) \<longleftrightarrow>
        (r - r mod 3 \<le> i \<and> i < r - r mod 3 + 3) \<and> (c - c mod 3 \<le> j \<and> j < c - c mod 3 + 3)" for i j
    unfolding box_cells_def by (rule block_set)
  then have "(i, j) \<in> set (box_cells r c) \<longleftrightarrow>
        (i < N \<and> i div 3 = r div 3) \<and> (j < N \<and> j div 3 = c div 3)" for i j
    unfolding box_origin[OF assms(1)] box_origin[OF assms(2)] .
  then show ?thesis
    by auto
qed

lemma distinct_box_cells: "distinct (box_cells r c)"
  unfolding box_cells_def by (rule block_distinct)

lemma length_box_cells: "length (box_cells r c) = N"
  by (simp add: box_cells_def upt_rec)

subsection \<open>\<^verbatim>\<open>is_safe\<close> against the specification\<close>

lemma in_row_iff: "wf_grid g \<Longrightarrow> r < N \<Longrightarrow> v \<in> set (grid_row g r) \<longleftrightarrow> in_row g r v"
  by (auto simp: grid_row_def in_row_def in_set_conv_nth wf_grid_nth)

lemma in_col_iff: "v \<in> set (grid_col g c) \<longleftrightarrow> in_col g c v"
  by (auto simp: grid_col_def in_col_def)

lemma in_box_iff:
  assumes "r < N" "c < N"
  shows "v \<in> set (grid_box g r c) \<longleftrightarrow> in_box g r c v"
proof
  assume "v \<in> set (grid_box g r c)"
  then obtain i j where "(i, j) \<in> set (box_cells r c)" "g ! i ! j = v"
    by (auto simp: grid_box_def)
  then have "i < N" "j < N" "i div 3 = r div 3" "j div 3 = c div 3" "g ! i ! j = v"
    by (simp_all add: set_box_cells[OF assms])
  then show "in_box g r c v"
    unfolding in_box_def by (intro bexI[of _ i] bexI[of _ j] conjI) simp_all
next
  assume "in_box g r c v"
  then obtain i j where "i < N" "j < N" "i div 3 = r div 3" "j div 3 = c div 3" "g ! i ! j = v"
    unfolding in_box_def by auto
  then have "(i, j) \<in> set (box_cells r c)" "(case (i, j) of (i, j) \<Rightarrow> g ! i ! j) = v"
    by (simp_all add: set_box_cells[OF assms])
  then show "v \<in> set (grid_box g r c)"
    unfolding grid_box_def set_map by (metis imageI)
qed

lemma is_safe_spec:
  assumes "wf_grid g" "r < N" "c < N"
  shows "is_safe g r c v = Inr (\<not> (in_row g r v \<or> in_col g c v \<or> in_box g r c v))"
  using assms by (simp add: is_safe_wf in_row_iff in_col_iff in_box_iff)

lemma related_cells:
  "(\<exists>q \<in> set all_cells. related (r, c) q \<and> cell_at g q = v) \<longleftrightarrow>
   (\<exists>i j. i < N \<and> j < N \<and> (i = r \<or> j = c \<or> (i div 3 = r div 3 \<and> j div 3 = c div 3)) \<and> g ! i ! j = v)"
  unfolding set_all_cells related_def cell_at_def by force

lemma safe_cells:
  assumes "r < N" "c < N"
  shows "(in_row g r v \<or> in_col g c v \<or> in_box g r c v) \<longleftrightarrow>
   (\<exists>i j. i < N \<and> j < N \<and> (i = r \<or> j = c \<or> (i div 3 = r div 3 \<and> j div 3 = c div 3)) \<and> g ! i ! j = v)"
    (is "?lhs \<longleftrightarrow> ?rhs")
proof
  assume ?lhs
  then show ?rhs
  proof (elim disjE)
    assume "in_row g r v"
    then obtain j where "j < N" "g ! r ! j = v"
      unfolding in_row_def by auto
    then show ?rhs
      using assms by (intro exI[of _ r] exI[of _ j]) simp
  next
    assume "in_col g c v"
    then obtain i where "i < N" "g ! i ! c = v"
      unfolding in_col_def by auto
    then show ?rhs
      using assms by (intro exI[of _ i] exI[of _ c]) simp
  next
    assume "in_box g r c v"
    then obtain i j where "i < N" "j < N" "i div 3 = r div 3" "j div 3 = c div 3" "g ! i ! j = v"
      unfolding in_box_def by auto
    then show ?rhs
      by (intro exI[of _ i] exI[of _ j]) simp
  qed
next
  assume ?rhs
  then obtain i j where ij: "i < N" "j < N" "g ! i ! j = v"
    and rel: "i = r \<or> j = c \<or> (i div 3 = r div 3 \<and> j div 3 = c div 3)"
    by auto
  from rel show ?lhs
  proof (elim disjE)
    assume "i = r"
    then have "in_row g r v"
      unfolding in_row_def using ij by (intro bexI[of _ j]) simp_all
    then show ?lhs
      by simp
  next
    assume "j = c"
    then have "in_col g c v"
      unfolding in_col_def using ij by (intro bexI[of _ i]) simp_all
    then show ?lhs
      by simp
  next
    assume "i div 3 = r div 3 \<and> j div 3 = c div 3"
    then have "in_box g r c v"
      unfolding in_box_def using ij by (intro bexI[of _ i] bexI[of _ j] conjI) simp_all
    then show ?lhs
      by simp
  qed
qed

lemma is_safe_related:
  assumes "wf_grid g" "r < N" "c < N"
  shows "is_safe g r c v = Inr (\<forall>q \<in> set all_cells. related (r, c) q \<longrightarrow> cell_at g q \<noteq> v)"
proof -
  have "(in_row g r v \<or> in_col g c v \<or> in_box g r c v) \<longleftrightarrow>
        (\<exists>q \<in> set all_cells. related (r, c) q \<and> cell_at g q = v)"
    unfolding related_cells safe_cells[OF assms(2,3)] ..
  then show ?thesis
    using is_safe_spec[OF assms, of v] by auto
qed

subsection \<open>Units\<close>



lemma nine_once_perm:
  fixes u :: "int list"
  assumes "length u = N" "\<forall>v \<in> {1..9}. count_list u v = 1"
  shows "distinct u \<and> set u = {1..9}"
proof -
  have sub: "{1..9} \<subseteq> set u"
  proof
    fix v :: int
    assume "v \<in> {1..9}"
    then have "count_list u v \<noteq> 0"
      using assms(2) by simp
    then show "v \<in> set u"
      by (simp add: count_list_0_iff)
  qed
  have "card {1..9::int} = 9"
    by simp
  moreover have "card (set u) \<le> 9"
    using card_length[of u] assms(1) by simp
  moreover have "card {1..9::int} \<le> card (set u)"
    by (rule card_mono[OF _ sub]) simp
  ultimately have c: "card (set u) = length u"
    using assms(1) by simp
  then have "distinct u"
    by (rule card_distinct)
  moreover have "set u = {1..9}"
    using sub c assms(1) by (intro card_seteq[symmetric]) simp_all
  ultimately show ?thesis
    by simp
qed


lemma in_concat_map2:
  "z \<in> set (concat (map (\<lambda>i. map (\<lambda>j. f i j) ys) xs)) \<longleftrightarrow> (\<exists>i \<in> set xs. \<exists>j \<in> set ys. z = f i j)"
  by auto

lemma unit_cells_cases:
  "cs \<in> set unit_cells \<longleftrightarrow>
   (\<exists>r<N. cs = row_cells r) \<or> (\<exists>c<N. cs = col_cells c) \<or>
   (\<exists>i<3. \<exists>j<3. cs = box_cells (3 * i) (3 * j))"
proof -
  have rows: "cs \<in> set (map row_cells [0..<N]) \<longleftrightarrow> (\<exists>r<N. cs = row_cells r)"
    by auto
  have cols: "cs \<in> set (map col_cells [0..<N]) \<longleftrightarrow> (\<exists>c<N. cs = col_cells c)"
    by auto
  have "cs \<in> set (concat (map (\<lambda>i. map (\<lambda>j. box_cells (3 * i) (3 * j)) [0..<3]) [0..<3]))
      \<longleftrightarrow> (\<exists>i \<in> set [0..<3]. \<exists>j \<in> set [0..<3]. cs = box_cells (3 * i) (3 * j))"
    by (rule in_concat_map2)
  then have boxes: "cs \<in> set (concat (map (\<lambda>i. map (\<lambda>j. box_cells (3 * i) (3 * j)) [0..<3]) [0..<3]))
      \<longleftrightarrow> (\<exists>i<3. \<exists>j<3. cs = box_cells (3 * i) (3 * j))"
    unfolding set_upt Bex_def atLeastLessThan_iff by simp
  show ?thesis
    unfolding unit_cells_def set_append Un_iff rows cols boxes ..
qed

lemma set_row_cells: "set (row_cells r) = {(i, j). i = r \<and> j < N}"
  by (auto simp: row_cells_def)

lemma set_col_cells: "set (col_cells c) = {(i, j). i < N \<and> j = c}"
  by (auto simp: col_cells_def)

lemma unit_cells_props:
  assumes "cs \<in> set unit_cells"
  shows "distinct cs" "length cs = N" "set cs \<subseteq> set all_cells"
    "p \<in> set cs \<Longrightarrow> q \<in> set cs \<Longrightarrow> related p q"
proof -
  consider (row) r where "r < N" "cs = row_cells r"
    | (col) c where "c < N" "cs = col_cells c"
    | (box) i j where "i < 3" "j < 3" "cs = box_cells (3 * i) (3 * j)"
    using assms unfolding unit_cells_cases by blast
  then have "distinct cs \<and> length cs = N \<and> set cs \<subseteq> set all_cells \<and>
      (p \<in> set cs \<longrightarrow> q \<in> set cs \<longrightarrow> related p q)"
  proof cases
    case row
    then show ?thesis
      by (auto simp: set_row_cells set_all_cells related_def) (simp_all add: row_cells_def distinct_map inj_on_def)
  next
    case col
    then show ?thesis
      by (auto simp: set_col_cells set_all_cells related_def) (simp_all add: col_cells_def distinct_map inj_on_def)
  next
    case box
    then have "3 * i < N" "3 * j < N"
      by simp_all
    then show ?thesis
      using box(3) by (auto simp: set_box_cells set_all_cells related_def distinct_box_cells length_box_cells)
  qed
  then show "distinct cs" "length cs = N" "set cs \<subseteq> set all_cells"
    "p \<in> set cs \<Longrightarrow> q \<in> set cs \<Longrightarrow> related p q"
    by simp_all
qed

lemma related_unit:
  assumes "p \<in> set all_cells" "q \<in> set all_cells" "related p q"
  shows "\<exists>cs \<in> set unit_cells. p \<in> set cs \<and> q \<in> set cs"
proof -
  obtain i j where p: "p = (i, j)"
    by (cases p)
  obtain i' j' where q: "q = (i', j')"
    by (cases q)
  have rng: "i < N" "j < N" "i' < N" "j' < N"
    using assms(1,2) by (simp_all add: p q set_all_cells)
  from assms(3) consider "i' = i" | "j' = j" | "i' div 3 = i div 3 \<and> j' div 3 = j div 3"
    unfolding related_def p q by auto
  then show ?thesis
  proof cases
    case 1
    have "row_cells i \<in> set unit_cells"
      using rng unfolding unit_cells_cases by blast
    then show ?thesis
      using 1 rng by (intro bexI[of _ "row_cells i"]) (simp_all add: p q set_row_cells)
  next
    case 2
    have "col_cells j \<in> set unit_cells"
      using rng unfolding unit_cells_cases by blast
    then show ?thesis
      using 2 rng by (intro bexI[of _ "col_cells j"]) (simp_all add: p q set_col_cells)
  next
    case 3
    have lt: "i div 3 < 3" "j div 3 < 3"
      using rng by arith+
    then have "box_cells (3 * (i div 3)) (3 * (j div 3)) \<in> set unit_cells"
      unfolding unit_cells_cases by blast
    moreover have "3 * (i div 3) < N" "3 * (j div 3) < N"
      using lt by simp_all
    ultimately show ?thesis
      using 3 rng
      by (intro bexI[of _ "box_cells (3 * (i div 3)) (3 * (j div 3))"]) (simp_all add: p q set_box_cells)
  qed
qed

subsection \<open>The invariant, unit by unit and cell by cell\<close>

lemma related_refl: "related p p"
  by (simp add: related_def)


lemma cell_in_unit:
  assumes "p \<in> set all_cells"
  shows "\<exists>cs \<in> set unit_cells. p \<in> set cs"
  using related_unit[OF assms assms related_refl] by blast

lemma unit_in_units: "cs \<in> set unit_cells \<Longrightarrow> cells_of g cs \<in> set (units g)"
  by (simp add: units_def)


lemma valid_unit:
  assumes "valid_grid g" "cs \<in> set unit_cells"
  shows "distinct (cells_of g cs)" "set (cells_of g cs) = {1..9}"
proof -
  have len: "length (cells_of g cs) = N"
    using unit_cells_props(2)[OF assms(2)] by (simp add: cells_of_def)
  have "\<forall>v \<in> {1..9}. count_list (cells_of g cs) v = 1"
    using assms unit_in_units[OF assms(2), of g] unfolding valid_grid_def set_NUMBERS by blast
  then show "distinct (cells_of g cs)" "set (cells_of g cs) = {1..9}"
    using nine_once_perm[OF len] by simp_all
qed

lemma valid_cell_range:
  assumes "valid_grid g" "p \<in> set all_cells"
  shows "cell_at g p \<in> {1..9}"
proof -
  obtain cs where cs: "cs \<in> set unit_cells" "p \<in> set cs"
    using cell_in_unit[OF assms(2)] by blast
  then have "cell_at g p \<in> set (cells_of g cs)"
    by (simp add: cells_of_def)
  then show ?thesis
    using valid_unit(2)[OF assms(1) cs(1)] by simp
qed

lemma valid_no_clash:
  assumes "valid_grid g"
  shows "no_clash g"
  unfolding no_clash_def
proof (intro ballI impI)
  fix p q
  assume pq: "p \<in> set all_cells" "q \<in> set all_cells"
    and h: "p \<noteq> q \<and> related p q \<and> cell_at g p \<noteq> 0"
  obtain cs where cs: "cs \<in> set unit_cells" "p \<in> set cs" "q \<in> set cs"
    using related_unit[OF pq] h by blast
  have "inj_on (cell_at g) (set cs)"
    using valid_unit(1)[OF assms cs(1)] by (simp add: cells_of_def distinct_map)
  then show "cell_at g p \<noteq> cell_at g q"
    using cs(2,3) h by (auto dest: inj_onD)
qed




lemma valid_partial_ok:
  assumes "valid_grid g"
  shows "partial_ok g"
proof -
  have "0 \<le> cell_at g p \<and> cell_at g p \<le> 9" if "p \<in> set all_cells" for p
    using valid_cell_range[OF assms that] by simp
  then show ?thesis
    using assms valid_no_clash[OF assms] by (simp add: partial_ok_def valid_grid_def)
qed



lemma valid_complete:
  assumes "valid_grid g"
  shows "count_empty g = 0"
proof -
  have wf: "wf_grid g"
    using assms by (simp add: valid_grid_def)
  have "g ! i ! j \<noteq> 0" if "i < N" "j < N" for i j
    using valid_cell_range[OF assms, of "(i, j)"] that by (auto simp: set_all_cells cell_at_def)
  then show ?thesis
    by (simp add: count_empty_zero_iff[OF wf])
qed

subsection \<open>Placing a safe number keeps the grid consistent\<close>

lemma cell_at_put:
  assumes "wf_grid g" "r < N" "c < N"
  shows "cell_at (put g r c v) p = (if p = (r, c) then v else cell_at g p)"
proof -
  have "r < length g" "c < length (g ! r)"
    using assms by (simp_all add: wf_grid_def)
  then show ?thesis
    by (cases p) (simp add: cell_at_def put_nth)
qed


lemma shuffle_NUMBERS:
  assumes "rnd_ok rnd" "shuffle rnd r NUMBERS = (nums, r1)"
  shows "set nums = {1..9}"
  using shuffle_set[OF assms] by (simp add: set_NUMBERS)



subsection \<open>The search finds a solution when there is one\<close>

lemma no_clashD:
  assumes "no_clash g" "p \<in> set all_cells" "q \<in> set all_cells" "p \<noteq> q" "related p q"
    "cell_at g p \<noteq> 0"
  shows "cell_at g p \<noteq> cell_at g q"
proof -
  have "\<forall>q \<in> set all_cells.
      p \<noteq> q \<and> related p q \<and> cell_at g p \<noteq> 0 \<longrightarrow> cell_at g p \<noteq> cell_at g q"
    using assms(1)[unfolded no_clash_def] assms(2) by (rule bspec)
  then have "p \<noteq> q \<and> related p q \<and> cell_at g p \<noteq> 0 \<longrightarrow> cell_at g p \<noteq> cell_at g q"
    using assms(3) by (rule bspec)
  then show ?thesis
    using assms(4-6) by simp
qed

lemma solution_is_safe:
  assumes wf: "wf_grid g" and sol: "valid_grid sol" and ext: "extends g sol"
    and rc: "r < N" "c < N" and empty: "cell_at g (r, c) = 0"
  shows "is_safe g r c (cell_at sol (r, c)) = Inr True"
proof -
  have mem: "(r, c) \<in> set all_cells"
    using rc by (simp add: set_all_cells)
  have "cell_at sol (r, c) \<in> {1..9}"
    using valid_cell_range[OF sol mem] .
  then have v: "cell_at sol (r, c) \<noteq> 0"
    by simp
  have "cell_at g q \<noteq> cell_at sol (r, c)" if q: "q \<in> set all_cells" "related (r, c) q" for q
  proof (cases "cell_at g q = 0")
    case True
    then show ?thesis
      using v by simp
  next
    case False
    have "cell_at g q \<noteq> 0 \<longrightarrow> cell_at sol q = cell_at g q"
      using ext[unfolded extends_def] q(1) by (rule bspec)
    then have eq: "cell_at sol q = cell_at g q"
      using False by simp
    have neq: "(r, c) \<noteq> q"
      using False empty by (metis)
    have "cell_at sol (r, c) \<noteq> cell_at sol q"
      by (rule no_clashD[OF valid_no_clash[OF sol] mem q(1) neq q(2) v])
    then show ?thesis
      using eq by simp
  qed
  then show ?thesis
    unfolding is_safe_related[OF wf rc] by simp
qed

lemma extends_put:
  assumes "wf_grid g" "extends g sol" "r < N" "c < N"
  shows "extends (put g r c (cell_at sol (r, c))) sol"
  using assms(2) by (simp add: extends_def cell_at_put[OF assms(1,3,4)])

lemma fill_grid_finds:
  shows "state_ok s b \<Longrightarrow> rnd_ok rnd \<Longrightarrow> valid_grid sol \<Longrightarrow> extends (grid_of s b) sol \<Longrightarrow>
         count_empty (grid_of s b) < n \<Longrightarrow>
         \<exists>s' r'. fill_grid n rnd b s r = Some (Inr (True, s', r'))"
    and "state_ok s b \<Longrightarrow> rnd_ok rnd \<Longrightarrow> valid_grid sol \<Longrightarrow> extends (grid_of s b) sol \<Longrightarrow>
         get_cell (grid_of s b) row col = Inr 0 \<Longrightarrow> row < N \<Longrightarrow> col < N \<Longrightarrow>
         cell_at sol (row, col) \<in> set nums \<Longrightarrow> count_empty (grid_of s b) \<le> n \<Longrightarrow>
         \<exists>s' r'. try_numbers n rnd b row col nums s r = Some (Inr (True, s', r'))"
proof (induction n rnd b s r and n rnd b row col nums s r rule: fill_grid_try_numbers.induct)
  case (1 rnd b s r)
  then show ?case by simp
next
  case (2 n rnd b s r)
  obtain ok s' r' where res: "fill_grid (Suc n) rnd b s r = Some (Inr (ok, s', r'))"
    using fill_grid_returns(1)[OF "2.prems"(1,5), of rnd r] by blast
  then show ?case
  proof (cases rule: fill_grid_Inr_cases)
    case (full m)
    then show ?thesis
      using res by simp
  next
    case (cell m row col nums r1)
    have c: "get_cell (grid_of s b) row col = Inr 0" "row < N" "col < N"
      using cell(2) find_empty_cell_Some by blast+
    then have "(row, col) \<in> set all_cells"
      by (simp add: set_all_cells)
    then have "cell_at sol (row, col) \<in> set nums"
      using valid_cell_range[OF "2.prems"(3)] shuffle_NUMBERS[OF "2.prems"(2) cell(3)] by simp
    then have "\<exists>s' r'. try_numbers n rnd b row col nums s r1 = Some (Inr (True, s', r'))"
      using "2.IH"[OF cell(2) refl refl cell(3)[symmetric] "2.prems"(1-4) c] "2.prems"(5) by simp
    then show ?thesis
      using cell(2,3) by simp
  qed
next
  case (3 n rnd b row col s r)
  then show ?case by simp
next
  case (4 n rnd b row col num rest s r)
  let ?g = "grid_of s b"
  let ?v = "cell_at sol (row, col)"
  have wf: "wf_grid ?g"
    using "4.prems"(1) by (simp add: state_ok_def)
  have empty: "cell_at ?g (row, col) = 0"
    using "4.prems"(5) by (simp add: get_cell_Inr cell_at_def)
  have sol_safe: "is_safe ?g row col ?v = Inr True"
    using solution_is_safe[OF wf "4.prems"(3,4,6,7) empty] .
  obtain safe where safe: "is_safe ?g row col num = Inr safe"
    using is_safe_wf[OF wf "4.prems"(6,7)] by blast
  show ?case
  proof (cases safe)
    case False
    then have "num \<noteq> ?v"
      using safe sol_safe by auto
    then have "?v \<in> set rest"
      using "4.prems"(8) by simp
    then show ?thesis
      using "4.IH"(3)[OF safe _ "4.prems"(1-7)] "4.prems"(9) safe False by simp
  next
    case True
    then have st: "safe = True"
      by simp
    obtain s1 where s1: "set_cell s b row col num = Inr s1"
      using state_ok_set_cell_ok[OF "4.prems"(1,6,7)] by blast
    have ok1: "state_ok s1 b"
      using state_ok_set_cell[OF "4.prems"(1) s1] .
    have g1: "grid_of s1 b = put ?g row col num"
      using state_ok_grid[OF "4.prems"(1) s1] .
    have "Suc (count_empty (grid_of s1 b)) = count_empty ?g"
      using count_empty_place[OF "4.prems"(1,5,6,7) _ s1] safe True by simp
    then have less: "count_empty (grid_of s1 b) < n"
      using "4.prems"(9) by simp
    obtain ok s2 r2 where rec: "fill_grid n rnd b s1 r = Some (Inr (ok, s2, r2))"
      using fill_grid_returns(1)[OF ok1 less, of rnd r] by blast
    show ?thesis
    proof (cases ok)
      case True
      then show ?thesis
        using safe st s1 rec by auto
    next
      case False
      then have rec': "fill_grid n rnd b s1 r = Some (Inr (False, s2, r2))"
        using rec by simp
      have "num \<noteq> ?v"
      proof
        assume "num = ?v"
        then have "extends (grid_of s1 b) sol"
          using extends_put[OF wf "4.prems"(4,6,7)] g1 by simp
        then have "\<exists>s' r'. fill_grid n rnd b s1 r = Some (Inr (True, s', r'))"
          using "4.IH"(1)[OF safe st s1 ok1 "4.prems"(2,3) _ less] by simp
        then show False
          using rec' by simp
      qed
      then have in_rest: "?v \<in> set rest"
        using "4.prems"(8) by simp
      have "s2 = s1"
        using fill_grid_restores(1)[OF rec'] .
      obtain s3 where s3: "set_cell s2 b row col 0 = Inr s3"
        using state_ok_set_cell_ok[OF ok1 "4.prems"(6,7)] \<open>s2 = s1\<close> by blast
      have "s3 = s"
        using set_cell_undo[OF s1] s3 \<open>s2 = s1\<close> "4.prems"(5) by (simp add: get_cell_grid_of)
      then have "\<exists>s' r'. try_numbers n rnd b row col rest s3 r2 = Some (Inr (True, s', r'))"
        using "4.IH"(2)[OF safe st s1 rec refl refl refl False s3] "4.prems" in_rest by simp
      then show ?thesis
        using safe st s1 rec False s3 by auto
    qed
  qed
qed

subsection \<open>The rotating random source permutes\<close>



section \<open>Runs of the model on concrete inputs\<close>


lemma state_ok_holes: "state_ok holes_grid board0"
  by code_simp

lemma count_empty_holes: "count_empty (grid_of holes_grid board0) = 3"
  by code_simp

lemma run_holes:
  "fill_grid 4 rotating_rnd board0 holes_grid 0 = Some (Inr (True, solved_grid, 3))"
  by code_simp




lemma wf_holes: "wf_grid holes_grid"
  by code_simp

lemma state_ok_solved: "state_ok solved_grid board0"
  by code_simp

lemma valid_solved: "valid_grid (grid_of solved_grid board0)"
  by code_simp

section \<open>The claims\<close>



text \<open>
  C9. \<^verbatim>\<open>fill_grid\<close> terminates on every well-formed board: with more fuel (nested calls
  allowed) than the grid has empty cells the call returns success or failure, never an
  error and never out of fuel. The measure is the number of empty cells: the board handed
  to the recursive call, after a safe number has been placed at the empty cell found,
  has exactly one empty cell less than the caller's.
\<close>

theorem fill_grid_terminates:
  assumes "state_ok s b"
  shows "(count_empty (grid_of s b) < n \<longrightarrow>
            (\<exists>ok s' r'. fill_grid n rnd b s r = Some (Inr (ok, s', r')))) \<and>
         (\<forall>row col num s1.
            find_empty_cell (grid_of s b) = Inr (Some (row, col)) \<and>
            is_safe (grid_of s b) row col num = Inr True \<and>
            set_cell s b row col num = Inr s1 \<longrightarrow>
            state_ok s1 b \<and> Suc (count_empty (grid_of s1 b)) = count_empty (grid_of s b))"
proof -
  have returns: "count_empty (grid_of s b) < n \<longrightarrow>
      (\<exists>ok s' r'. fill_grid n rnd b s r = Some (Inr (ok, s', r')))"
  proof
    assume "count_empty (grid_of s b) < n"
    then show "\<exists>ok s' r'. fill_grid n rnd b s r = Some (Inr (ok, s', r'))"
      by (rule fill_grid_returns(1)[OF assms])
  qed
  have decreases: "\<forall>row col num s1.
      find_empty_cell (grid_of s b) = Inr (Some (row, col)) \<and>
      is_safe (grid_of s b) row col num = Inr True \<and>
      set_cell s b row col num = Inr s1 \<longrightarrow>
      state_ok s1 b \<and> Suc (count_empty (grid_of s1 b)) = count_empty (grid_of s b)"
  proof (intro allI impI)
    fix row col num s1
    assume a: "find_empty_cell (grid_of s b) = Inr (Some (row, col)) \<and>
      is_safe (grid_of s b) row col num = Inr True \<and>
      set_cell s b row col num = Inr s1"
    then have "get_cell (grid_of s b) row col = Inr 0" "row < N" "col < N"
      using find_empty_cell_Some by blast+
    then show "state_ok s1 b \<and> Suc (count_empty (grid_of s1 b)) = count_empty (grid_of s b)"
      using count_empty_place[OF assms] state_ok_set_cell[OF assms] a by blast
  qed
  from returns decreases show ?thesis
    by (rule conjI)
qed

theorem fill_grid_terminates_witness:
  "state_ok holes_grid board0 \<and> count_empty (grid_of holes_grid board0) < 4 \<and>
   (\<exists>ok s' r'. fill_grid 4 rotating_rnd board0 holes_grid 0 = Some (Inr (ok, s', r')))"
proof -
  have less: "count_empty (grid_of holes_grid board0) < 4"
    by (simp add: count_empty_holes)
  from fill_grid_terminates[OF state_ok_holes, of 4 rotating_rnd 0]
  have "\<exists>ok s' r'. fill_grid 4 rotating_rnd board0 holes_grid 0 = Some (Inr (ok, s', r'))"
    using less by (elim conjE) (erule mp)
  then show ?thesis
    using state_ok_holes less by (intro conjI)
qed

text \<open>
  C10. \<^verbatim>\<open>fill_grid\<close> writes only to empty cells: every cell of the board that is not
  empty before the call holds the same value after it, whether the call succeeds or fails.
\<close>

theorem fill_grid_keeps_filled_cells:
  assumes "fill_grid n rnd b s r = Some (Inr (ok, s', r'))"
    and "i < length b" and "j < length (grid_of s b ! i)" and "grid_of s b ! i ! j \<noteq> 0"
  shows "grid_of s' b ! i ! j = grid_of s b ! i ! j"
  using fill_grid_keeps(1)[OF assms(1), of "b ! i" j] assms(2,4)
  by (simp add: grid_of_def)

theorem fill_grid_keeps_filled_cells_witness:
  "grid_of solved_grid board0 ! 0 ! 1 = grid_of holes_grid board0 ! 0 ! 1"
proof -
  have row: "0 < length board0"
    by code_simp
  have col: "1 < length (grid_of holes_grid board0 ! 0)"
    by code_simp
  have filled: "grid_of holes_grid board0 ! 0 ! 1 \<noteq> 0"
    by code_simp
  show ?thesis
    by (rule fill_grid_keeps_filled_cells[OF run_holes row col filled])
qed




text \<open>
  C2. On a nine-by-nine grid, for a row and a column in 0 to 8 and any value \<open>v\<close> (in
  particular 1 to 9), \<^verbatim>\<open>is_safe\<close> returns false if \<open>v\<close> is in the row, false if it is in
  the column, false if it is in the three-by-three box of the cell, and true otherwise; it
  raises no error. It reads the grid and returns a truth value only: the model of
  \<^verbatim>\<open>is_safe\<close> takes no store and returns none, as the source assigns to nothing.
\<close>

theorem is_safe_decides:
  assumes "wf_grid g" "r < N" "c < N"
  shows "is_safe g r c v = Inr (\<not> (in_row g r v \<or> in_col g c v \<or> in_box g r c v))"
  using assms by (rule is_safe_spec)

theorem is_safe_decides_witness:
  "is_safe holes_grid 0 0 5 = Inr (\<not> (in_row holes_grid 0 5 \<or> in_col holes_grid 0 5 \<or> in_box holes_grid 0 0 5))"
  by (rule is_safe_decides[OF wf_holes]) simp_all

text \<open>
  C8. \<^verbatim>\<open>is_safe\<close> agrees with the invariant: on a board that shows a complete valid
  grid, after any cell has been cleared (\<^verbatim>\<open>board[r][c] = 0\<close>), \<^verbatim>\<open>is_safe\<close> accepts the
  value the cell held.
\<close>

theorem is_safe_accepts_cleared_value:
  assumes "state_ok s b" "valid_grid (grid_of s b)" "r < N" "c < N"
  shows "\<exists>s'. set_cell s b r c 0 = Inr s' \<and>
           is_safe (grid_of s' b) r c (grid_of s b ! r ! c) = Inr True"
proof -
  let ?g = "grid_of s b"
  have wf: "wf_grid ?g"
    using assms(2) by (simp add: valid_grid_def)
  obtain s' where s': "set_cell s b r c 0 = Inr s'"
    using state_ok_set_cell_ok[OF assms(1,3,4)] by blast
  have g': "grid_of s' b = put ?g r c 0"
    using state_ok_grid[OF assms(1) s'] .
  have "extends (put ?g r c 0) ?g"
    by (simp add: extends_def cell_at_put[OF wf assms(3,4)])
  moreover have "cell_at (put ?g r c 0) (r, c) = 0"
    by (simp add: cell_at_put[OF wf assms(3,4)])
  ultimately have "is_safe (put ?g r c 0) r c (cell_at ?g (r, c)) = Inr True"
    using solution_is_safe[OF wf_grid_put[OF wf] assms(2) _ assms(3,4)] by simp
  then show ?thesis
    using s' g' by (simp add: cell_at_def)
qed

theorem is_safe_accepts_cleared_value_witness:
  "\<exists>s'. set_cell solved_grid board0 0 0 0 = Inr s' \<and>
     is_safe (grid_of s' board0) 0 0 (grid_of solved_grid board0 ! 0 ! 0) = Inr True"
  by (rule is_safe_accepts_cleared_value[OF state_ok_solved valid_solved]) simp_all

end
